theory Spec2Isabelle
  imports Complex_Main "HOL-Library.Product_Lexorder"
begin

section \<open>Rest extraction (scripts/01_extract_rests.py): data model\<close>

text \<open>
  The script reads JSON documents. A parsed document is a value of \<open>json\<close>: Python's
  \<open>None\<close>, \<open>bool\<close>, \<open>int\<close>, \<open>float\<close>, \<open>str\<close>, \<open>list\<close> and \<open>dict\<close>. A \<open>dict\<close> is
  kept as the list of its items in iteration (insertion) order, so its keys are distinct;
  \<open>d.get(k)\<close> and \<open>d[k]\<close> are \<open>map_of\<close>, \<open>d.values()\<close> is \<open>map snd\<close>.

  Times are Python floats. The model keeps the finite ones, as the real numbers they
  are, and computes on them exactly: the rounding of a sum or a difference is not
  modelled, and neither are the infinities and NaN, which \<open>float\<close> lets through from the
  numbers \<open>1e999\<close> and the strings \<open>inf\<close> and \<open>nan\<close>. Comparisons, \<open>max\<close> and sorting are
  exact on floats, so they are the same in the model. \<open>EPS\<close> is the double that the
  literal \<open>1e-9\<close> denotes, \<open>4835703278458517 / 2 ^ 82\<close>.
\<close>

datatype json =
    JNull
  | JBool bool
  | JInt int
  | JFloat real
  | JStr string
  | JArr "json list"
  | JObj "(string \<times> json) list"

type_synonym interval = "real \<times> real"

definition EPS :: real where
  "EPS = 4835703278458517 / 2 ^ 82"

fun is_dict :: "json \<Rightarrow> bool" where
  "is_dict (JObj kvs) = True"
| "is_dict v = False"

fun is_list :: "json \<Rightarrow> bool" where
  "is_list (JArr xs) = True"
| "is_list v = False"

text \<open>\<open>isinstance(v, list) and (len(v) == 0 or isinstance(v[0], dict))\<close>\<close>

fun is_event_list :: "json \<Rightarrow> bool" where
  "is_event_list (JArr []) = True"
| "is_event_list (JArr (x # xs)) = is_dict x"
| "is_event_list v = False"

fun list_items :: "json \<Rightarrow> json list" where
  "list_items (JArr xs) = xs"
| "list_items v = []"

subsection \<open>Event-list locator\<close>

definition priority_keys :: "string list" where
  "priority_keys = [''events'', ''event_list'', ''items'', ''notes'', ''data'', ''sequence'', ''segments'']"

text \<open>The first loop of \<open>find_event_list\<close> on a dict: the priority keys in order.\<close>

fun find_priority :: "(string \<times> json) list \<Rightarrow> string list \<Rightarrow> json list option" where
  "find_priority obj [] = None"
| "find_priority obj (key # keys) =
     (case map_of obj key of
        Some v \<Rightarrow> if is_event_list v then Some (list_items v) else find_priority obj keys
      | None \<Rightarrow> find_priority obj keys)"

text \<open>
  \<open>find_event_list\<close> returns the list found, or \<open>None\<close>. \<open>find_in_values\<close> is its
  second loop, over the items of the dict that are left to visit.
\<close>

fun find_event_list :: "json \<Rightarrow> json list option"
  and find_in_values :: "(string \<times> json) list \<Rightarrow> json list option" where
  "find_event_list (JArr xs) = (if is_event_list (JArr xs) then Some xs else None)"
| "find_event_list (JObj obj) =
     (case find_priority obj priority_keys of
        Some v \<Rightarrow> Some v
      | None \<Rightarrow> find_in_values obj)"
| "find_event_list JNull = None"
| "find_event_list (JBool b) = None"
| "find_event_list (JInt n) = None"
| "find_event_list (JFloat r) = None"
| "find_event_list (JStr s) = None"
| "find_in_values [] = None"
| "find_in_values ((k, v) # rest) =
     (if is_dict v \<or> is_list v then
        (case find_event_list v of
           Some ev \<Rightarrow> Some ev
         | None \<Rightarrow> find_in_values rest)
      else find_in_values rest)"

subsection \<open>Per-record functions\<close>

text \<open>\<open>first_present\<close>: the value of the first key that is in the dict with a value
  other than \<open>None\<close>; \<open>JNull\<close> when there is none (Python returns \<open>None\<close>).\<close>

fun first_present :: "(string \<times> json) list \<Rightarrow> string list \<Rightarrow> json" where
  "first_present d [] = JNull"
| "first_present d (k # keys) =
     (case map_of d k of
        Some v \<Rightarrow> if v \<noteq> JNull then v else first_present d keys
      | None \<Rightarrow> first_present d keys)"

text \<open>
  \<open>float(x)\<close> on a string parses it and raises \<open>ValueError\<close> on a malformed one. The
  parser is Python's own, so it is a parameter \<open>parse\<close> of the model: \<open>parse s\<close> is the
  number read, or \<open>None\<close> where \<open>float\<close> raises. \<open>float\<close> of a bool is 1 or 0, of an
  int is the int (taken exactly; the program rounds it to the nearest double), with
  \<open>OverflowError\<close> from \<open>2 ^ 1024 - 2 ^ 970\<close> on, and of a list or a
  dict is a \<open>TypeError\<close>. \<open>to_float\<close> turns every exception into \<open>None\<close>.
\<close>

fun to_float :: "(string \<Rightarrow> real option) \<Rightarrow> json \<Rightarrow> real option" where
  "to_float parse JNull = None"
| "to_float parse (JBool b) = Some (if b then 1 else 0)"
| "to_float parse (JInt n) =
     (if \<bar>n\<bar> < 2 ^ 1024 - 2 ^ 970 then Some (of_int n) else None)"
| "to_float parse (JFloat r) = Some r"
| "to_float parse (JStr s) = parse s"
| "to_float parse (JArr xs) = None"
| "to_float parse (JObj obj) = None"

text \<open>\<open>bool(x)\<close>, Python's truth value.\<close>

fun truthy :: "json \<Rightarrow> bool" where
  "truthy JNull = False"
| "truthy (JBool b) = b"
| "truthy (JInt n) = (n \<noteq> 0)"
| "truthy (JFloat r) = (r \<noteq> 0)"
| "truthy (JStr s) = (s \<noteq> [])"
| "truthy (JArr xs) = (xs \<noteq> [])"
| "truthy (JObj obj) = (obj \<noteq> [])"

text \<open>\<open>str.lower\<close> on the ASCII letters, and \<open>needle in haystack\<close> on strings.\<close>

definition lower_char :: "char \<Rightarrow> char" where
  "lower_char c =
     (let n = of_char c :: nat in if 65 \<le> n \<and> n \<le> 90 then char_of (n + 32) else c)"

definition lower :: "string \<Rightarrow> string" where
  "lower s = map lower_char s"

fun starts_with :: "string \<Rightarrow> string \<Rightarrow> bool" where
  "starts_with [] hay = True"
| "starts_with (n # ns) [] = False"
| "starts_with (n # ns) (h # hs) = (n = h \<and> starts_with ns hs)"

fun contains :: "string \<Rightarrow> string \<Rightarrow> bool" where
  "contains needle [] = (needle = [])"
| "contains needle (h # hs) = (starts_with needle (h # hs) \<or> contains needle hs)"

definition rest_flags :: "string list" where
  "rest_flags = [''is_rest'', ''isRest'', ''rest'', ''is_silence'', ''silence'']"

fun any_flag :: "(string \<times> json) list \<Rightarrow> string list \<Rightarrow> bool" where
  "any_flag ev [] = False"
| "any_flag ev (k # keys) =
     (case map_of ev k of
        Some v \<Rightarrow> if truthy v then True else any_flag ev keys
      | None \<Rightarrow> any_flag ev keys)"

definition is_rest_event :: "(string \<times> json) list \<Rightarrow> bool" where
  "is_rest_event ev =
     (if any_flag ev rest_flags then True
      else
        let t = first_present ev [''type'', ''kind'', ''event_type'', ''eventType'', ''name'']
        in if (case t of JStr s \<Rightarrow> contains ''rest'' (lower s) | _ \<Rightarrow> False) then True
        else
          let pitch_like = first_present ev
                [''pitch_midi'', ''pitchMidi'', ''pitch'', ''pc'', ''pitch_class'', ''pitchClass''];
              pitches = first_present ev [''pitches'', ''midi'', ''midis'']
          in if pitch_like = JNull then (if pitches = JArr [] then True else False)
             else False)"

definition onset_keys :: "string list" where
  "onset_keys = [''offset'', ''off'', ''onset'', ''start'', ''t'', ''time'', ''offset_q'', ''onset_q'', ''start_q'']"

definition get_onset :: "(string \<Rightarrow> real option) \<Rightarrow> (string \<times> json) list \<Rightarrow> real option" where
  "get_onset parse ev = to_float parse (first_present ev onset_keys)"

definition get_dur :: "(string \<Rightarrow> real option) \<Rightarrow> (string \<times> json) list \<Rightarrow> real option" where
  "get_dur parse ev =
     (case to_float parse (first_present ev
             [''dur_q'', ''duration_q'', ''dur'', ''duration'', ''ql'', ''quarterLength'', ''quarter_length''])
      of Some dur \<Rightarrow> Some dur
       | None \<Rightarrow>
          (case to_float parse (first_present ev [''dur_8'', ''duration_8'', ''eighth'', ''eighths''])
           of Some dur8 \<Rightarrow> Some (dur8 / 2)
            | None \<Rightarrow> None))"

subsection \<open>Coalescing\<close>

text \<open>One step of the loop of \<open>coalesce_intervals\<close>: \<open>out\<close> is never empty there.\<close>

definition coalesce_step :: "real \<Rightarrow> interval list \<Rightarrow> interval \<Rightarrow> interval list" where
  "coalesce_step eps out x =
     (case x of (s, e) \<Rightarrow>
        (case last out of (ps, pe) \<Rightarrow>
           if s \<le> pe + eps then butlast out @ [(ps, max pe e)] else out @ [(s, e)]))"

definition coalesce_intervals_eps :: "real \<Rightarrow> interval list \<Rightarrow> interval list" where
  "coalesce_intervals_eps eps intervals =
     (case sort_key (\<lambda>x. (fst x, snd x)) intervals of
        [] \<Rightarrow> []
      | x # xs \<Rightarrow> foldl (coalesce_step eps) [x] xs)"

text \<open>The default argument \<open>eps = EPS\<close>, which every call of the script uses.\<close>

definition coalesce_intervals :: "interval list \<Rightarrow> interval list" where
  "coalesce_intervals intervals = coalesce_intervals_eps EPS intervals"

subsection \<open>Interval extractor\<close>

text \<open>The first loop of \<open>extract_rest_intervals\<close>: the explicit rests, in event order.\<close>

fun explicit_rests :: "(string \<Rightarrow> real option) \<Rightarrow> json list \<Rightarrow> interval list" where
  "explicit_rests parse [] = []"
| "explicit_rests parse (JObj ev # events) =
     (if is_rest_event ev then
        (case (get_onset parse ev, get_dur parse ev) of
           (Some onset, Some dur) \<Rightarrow>
             if dur > EPS then (onset, onset + dur) # explicit_rests parse events
             else explicit_rests parse events
         | _ \<Rightarrow> explicit_rests parse events)
      else explicit_rests parse events)"
| "explicit_rests parse (v # events) = explicit_rests parse events"

text \<open>The second loop: the spans of the events that are not rests.\<close>

fun active_spans :: "(string \<Rightarrow> real option) \<Rightarrow> json list \<Rightarrow> interval list" where
  "active_spans parse [] = []"
| "active_spans parse (JObj ev # events) =
     (if is_rest_event ev then active_spans parse events
      else
        (case (get_onset parse ev, get_dur parse ev) of
           (Some onset, Some dur) \<Rightarrow>
             if dur < 0 then active_spans parse events
             else (onset, onset + dur) # active_spans parse events
         | _ \<Rightarrow> active_spans parse events))"
| "active_spans parse (v # events) = active_spans parse events"

text \<open>The third loop, over \<open>zip(active_spans, active_spans[1:])\<close>.\<close>

fun inferred_gaps :: "(interval \<times> interval) list \<Rightarrow> interval list" where
  "inferred_gaps [] = []"
| "inferred_gaps (((s1, e1), (s2, e2)) # pairs) =
     (if s2 - e1 > EPS then (e1, s2) # inferred_gaps pairs else inferred_gaps pairs)"

definition extract_rest_intervals ::
    "(string \<Rightarrow> real option) \<Rightarrow> json list \<Rightarrow> bool \<Rightarrow> interval list" where
  "extract_rest_intervals parse events require_explicit =
     (let rest_intervals = coalesce_intervals (explicit_rests parse events) in
      if rest_intervals \<noteq> [] \<or> require_explicit then rest_intervals
      else
        let spans = active_spans parse events in
        if spans = [] then []
        else
          let spans' = coalesce_intervals spans
          in coalesce_intervals (inferred_gaps (zip spans' (tl spans'))))"

subsection \<open>Unit converter\<close>




subsection \<open>Validator\<close>

text \<open>
  \<open>validate_expected\<close> returns nothing and prints one or two lines; the model returns
  the lines printed, in order, each with the values it shows.
\<close>

datatype line =
    WARN string nat nat
  | CHECK string real

text \<open>\<open>max(iterable, default=d)\<close>\<close>

fun py_max_default :: "real list \<Rightarrow> real \<Rightarrow> real" where
  "py_max_default [] d = d"
| "py_max_default (x # xs) d = foldl max x xs"

definition validate_expected :: "string \<Rightarrow> real list \<Rightarrow> real list \<Rightarrow> line list" where
  "validate_expected label got expected =
     (let warn = (if length got \<noteq> length expected
                  then [WARN label (length got) (length expected)] else []);
          n = min (length got) (length expected);
          max_err = py_max_default (map (\<lambda>i. \<bar>got ! i - expected ! i\<bar>) [0..<n]) 0
      in warn @ [CHECK label max_err])"

section \<open>Notions of the specification\<close>






section \<open>Notions used in the statements and proofs\<close>

text \<open>
  \<open>merge_from eps p xs\<close> is the loop of \<open>coalesce_intervals\<close> seen from its last
  accumulated interval \<open>p\<close>: what the loop appends to the intervals before \<open>p\<close> while
  it consumes \<open>xs\<close> (lemma \<open>foldl_coalesce_step\<close>).
\<close>

fun merge_from :: "real \<Rightarrow> interval \<Rightarrow> interval list \<Rightarrow> interval list" where
  "merge_from eps p [] = [p]"
| "merge_from eps p (x # xs) =
     (if fst x \<le> snd p + eps then merge_from eps (fst p, max (snd p) (snd x)) xs
      else p # merge_from eps x xs)"

text \<open>A key is present in a record when the record has it with a value other than
  \<open>None\<close>: the test of \<open>first_present\<close>.\<close>

definition present :: "(string \<times> json) list \<Rightarrow> string \<Rightarrow> bool" where
  "present d k = (case map_of d k of Some v \<Rightarrow> v \<noteq> JNull | None \<Rightarrow> False)"

text \<open>The explicit rest that one element of the event list contributes, if any.\<close>

definition explicit_rest_of :: "(string \<Rightarrow> real option) \<Rightarrow> json \<Rightarrow> interval option" where
  "explicit_rest_of parse v =
     (case v of
        JObj ev \<Rightarrow>
          (if is_rest_event ev then
             (case (get_onset parse ev, get_dur parse ev) of
                (Some onset, Some dur) \<Rightarrow> if dur > EPS then Some (onset, onset + dur) else None
              | _ \<Rightarrow> None)
           else None)
      | _ \<Rightarrow> None)"


section \<open>The coalescing loop\<close>


lemma foldl_coalesce_step:
  "foldl (coalesce_step eps) (out @ [p]) xs = out @ merge_from eps p xs"
proof (induction xs arbitrary: out p)
  case Nil
  show ?case by simp
next
  case (Cons x xs)
  obtain s e where x: "x = (s, e)" by (cases x)
  obtain ps pe where p: "p = (ps, pe)" by (cases p)
  show ?case
  proof (cases "s \<le> pe + eps")
    case True
    then have "coalesce_step eps (out @ [p]) x = out @ [(ps, max pe e)]"
      by (simp add: coalesce_step_def x p)
    then show ?thesis using True Cons.IH [of out "(ps, max pe e)"] by (simp add: x p)
  next
    case False
    then have "coalesce_step eps (out @ [p]) x = (out @ [p]) @ [x]"
      by (simp add: coalesce_step_def x p)
    then show ?thesis using False Cons.IH [of "out @ [p]" x] by (simp add: x p)
  qed
qed

lemma coalesce_intervals_eps_sort:
  "coalesce_intervals_eps eps xs =
     (case sort xs of [] \<Rightarrow> [] | y # ys \<Rightarrow> merge_from eps y ys)"
proof -
  have "foldl (coalesce_step eps) [y] ys = merge_from eps y ys" for y ys
    using foldl_coalesce_step [of eps "[]" y ys] by simp
  then show ?thesis
    by (simp add: coalesce_intervals_eps_def split: list.splits)
qed

lemma merge_from_not_Nil: "merge_from eps p xs \<noteq> []"
  by (induction xs arbitrary: p) auto

lemma coalesce_intervals_eps_Nil_iff: "coalesce_intervals_eps eps xs = [] \<longleftrightarrow> xs = []"
proof
  assume "coalesce_intervals_eps eps xs = []"
  then have "sort xs = []"
    by (auto simp: coalesce_intervals_eps_sort merge_from_not_Nil split: list.splits)
  then have "set (sort xs) = {}" by simp
  then show "xs = []" by simp
qed (simp add: coalesce_intervals_eps_sort)

lemma coalesce_intervals_Nil_iff: "coalesce_intervals xs = [] \<longleftrightarrow> xs = []"
  by (simp add: coalesce_intervals_def coalesce_intervals_eps_Nil_iff)

lemma merge_from_fst:
  "q \<in> set (merge_from eps p xs) \<Longrightarrow> fst q \<in> fst ` set (p # xs)"
  by (induction xs arbitrary: p) (fastforce split: if_splits)+


lemma merge_from_sorted_fst:
  "sorted (map fst (p # xs)) \<Longrightarrow> sorted (map fst (merge_from eps p xs))"
proof (induction xs arbitrary: p)
  case Nil
  show ?case by simp
next
  case (Cons x xs)
  show ?case
  proof (cases "fst x \<le> snd p + eps")
    case True
    have "sorted (map fst ((fst p, max (snd p) (snd x)) # xs))"
      using Cons.prems by auto
    from Cons.IH [OF this] show ?thesis using True by simp
  next
    case False
    have sx: "sorted (map fst (x # xs))" using Cons.prems by simp
    have "fst p \<le> fst q" if "q \<in> set (merge_from eps x xs)" for q
      using merge_from_fst [OF that] Cons.prems by auto
    then show ?thesis using False Cons.IH [OF sx] by auto
  qed
qed

lemma merge_from_separated:
  "sorted (map fst (p # xs)) \<Longrightarrow>
   sorted_wrt (\<lambda>a b. snd a + eps < fst b) (merge_from eps p xs)"
proof (induction xs arbitrary: p)
  case Nil
  show ?case by simp
next
  case (Cons x xs)
  show ?case
  proof (cases "fst x \<le> snd p + eps")
    case True
    have "sorted (map fst ((fst p, max (snd p) (snd x)) # xs))"
      using Cons.prems by auto
    from Cons.IH [OF this] show ?thesis using True by simp
  next
    case False
    have sx: "sorted (map fst (x # xs))" using Cons.prems by simp
    have "snd p + eps < fst q" if "q \<in> set (merge_from eps x xs)" for q
    proof -
      have "fst x \<le> fst q" using merge_from_fst [OF that] sx by auto
      then show ?thesis using False by simp
    qed
    then show ?thesis using False Cons.IH [OF sx] by auto
  qed
qed


lemma merge_from_wf:
  "\<forall>x \<in> set (p # xs). fst x \<le> snd x \<Longrightarrow> q \<in> set (merge_from eps p xs) \<Longrightarrow> fst q \<le> snd q"
proof (induction xs arbitrary: p)
  case Nil
  then show ?case by simp
next
  case (Cons y ys)
  show ?case
  proof (cases "fst y \<le> snd p + eps")
    case True
    have "\<forall>x \<in> set ((fst p, max (snd p) (snd y)) # ys). fst x \<le> snd x"
      using Cons.prems(1) by auto
    from Cons.IH [OF this] show ?thesis using True Cons.prems(2) by simp
  next
    case False
    then show ?thesis using Cons.prems Cons.IH [of y] by auto
  qed
qed






lemma sorted_imp_sorted_fst: "sorted (xs :: interval list) \<Longrightarrow> sorted (map fst xs)"
proof (induction xs)
  case Nil
  show ?case by simp
next
  case (Cons x xs)
  have "fst x \<le> fst y" if "y \<in> set xs" for y
  proof -
    have "x \<le> y" using Cons.prems that by auto
    then show ?thesis by (cases x, cases y) (auto simp: less_eq_prod_simp)
  qed
  then show ?case using Cons by auto
qed



lemma coalesce_separated:
  "sorted_wrt (\<lambda>a b. snd a + eps < fst b) (coalesce_intervals_eps eps xs)"
proof (cases "sort xs")
  case Nil
  then show ?thesis by (simp add: coalesce_intervals_eps_sort)
next
  case (Cons y ys)
  have "sorted (map fst (y # ys))"
    using sorted_imp_sorted_fst [OF sorted_sort [of xs]] Cons by simp
  then show ?thesis
    using Cons merge_from_separated [of y ys eps] by (simp add: coalesce_intervals_eps_sort)
qed





lemma coalesce_wf:
  assumes "\<forall>x \<in> set xs. fst x \<le> snd x" "q \<in> set (coalesce_intervals_eps eps xs)"
  shows "fst q \<le> snd q"
proof (cases "sort xs")
  case Nil
  then show ?thesis using assms by (simp add: coalesce_intervals_eps_sort)
next
  case (Cons y ys)
  have set: "set (y # ys) = set xs" using set_sort [of "\<lambda>x. x" xs] Cons by simp
  have q: "q \<in> set (merge_from eps y ys)"
    using assms Cons by (simp add: coalesce_intervals_eps_sort)
  have "\<forall>x \<in> set (y # ys). fst x \<le> snd x" using assms(1) set by simp
  from merge_from_wf [OF this q] show ?thesis .
qed


lemma coalesce_intervals_wf:
  "\<forall>x \<in> set xs. fst x \<le> snd x \<Longrightarrow> q \<in> set (coalesce_intervals xs) \<Longrightarrow> fst q \<le> snd q"
  unfolding coalesce_intervals_def by (rule coalesce_wf)

lemma coalesce_intervals_separated:
  "successively (\<lambda>p q. snd p + EPS < fst q) (coalesce_intervals xs)"
  unfolding coalesce_intervals_def
  by (rule successively_if_sorted_wrt [OF coalesce_separated])





section \<open>The measure of the union on the grid of end points\<close>



















section \<open>The locator and the field lookups\<close>

lemma find_priority_event_list:
  "find_priority obj keys = Some xs \<Longrightarrow> is_event_list (JArr xs)"
proof (induction keys)
  case Nil
  then show ?case by simp
next
  case (Cons k keys)
  show ?case
  proof (cases "map_of obj k")
    case None
    then show ?thesis using Cons by simp
  next
    case (Some v)
    show ?thesis
    proof (cases "is_event_list v")
      case True
      then obtain ys where "v = JArr ys" by (cases v) auto
      then show ?thesis using Cons.prems Some True by simp
    next
      case False
      then show ?thesis using Cons Some by simp
    qed
  qed
qed

lemma find_event_list_shape:
  "find_event_list v = Some xs \<Longrightarrow> is_event_list (JArr xs)"
  "find_in_values obj = Some xs \<Longrightarrow> is_event_list (JArr xs)"
proof (induction v and obj rule: find_event_list_find_in_values.induct)
  case (1 ys)
  then show ?case by (auto split: if_splits)
next
  case (2 obj)
  then show ?case by (auto split: option.splits dest: find_priority_event_list)
next
  case (9 k v rest)
  then show ?case by (auto split: if_splits option.splits)
qed simp_all

lemma find_event_list_scalar:
  "\<not> (is_dict v \<or> is_list v) \<Longrightarrow> find_event_list v = None"
  by (cases v) simp_all

lemma find_in_values_find:
  "find_in_values obj =
     (case List.find (\<lambda>v. find_event_list v \<noteq> None) (map snd obj) of
        None \<Rightarrow> None
      | Some v \<Rightarrow> find_event_list v)"
proof (induction obj)
  case Nil
  show ?case by simp
next
  case (Cons kv obj)
  obtain k v where kv: "kv = (k, v)" by (cases kv)
  show ?case
  proof (cases "is_dict v \<or> is_list v")
    case True
    then show ?thesis using Cons by (cases "find_event_list v") (simp_all add: kv)
  next
    case False
    then show ?thesis using Cons find_event_list_scalar [OF False] by (simp add: kv)
  qed
qed

lemma find_priority_None:
  "(\<forall>k \<in> set keys. \<forall>v. map_of obj k = Some v \<longrightarrow> \<not> is_event_list v) \<Longrightarrow>
   find_priority obj keys = None"
  by (induction keys) (auto split: option.splits)

lemma first_present_find:
  "first_present d keys =
     (case List.find (present d) keys of None \<Rightarrow> JNull | Some k \<Rightarrow> the (map_of d k))"
  by (induction keys) (auto simp: present_def split: option.splits)


section \<open>The loops of the extractor\<close>

lemma explicit_rests_map_filter:
  "explicit_rests parse events = List.map_filter (explicit_rest_of parse) events"
proof (induction parse events rule: explicit_rests.induct)
  case (1 parse)
  show ?case by (simp add: List.map_filter_simps)
next
  case (2 parse ev events)
  then show ?case
    by (auto simp: List.map_filter_simps explicit_rest_of_def split: option.splits)
qed (simp_all add: List.map_filter_simps explicit_rest_of_def)

lemma explicit_rests_filter:
  "explicit_rests parse (filter is_dict events) = explicit_rests parse events"
  by (induction parse events rule: explicit_rests.induct) (auto split: option.splits)

lemma active_spans_filter:
  "active_spans parse (filter is_dict events) = active_spans parse events"
  by (induction parse events rule: active_spans.induct) (auto split: option.splits)

lemma explicit_rests_wf:
  "x \<in> set (explicit_rests parse events) \<Longrightarrow> fst x < snd x"
  by (induction parse events rule: explicit_rests.induct)
     (auto simp: EPS_def split: option.splits if_splits)

lemma inferred_gaps_wf:
  "x \<in> set (inferred_gaps pairs) \<Longrightarrow> fst x < snd x"
  by (induction pairs rule: inferred_gaps.induct) (auto simp: EPS_def split: if_splits)

lemma explicit_rests_mem:
  assumes "JObj ev \<in> set events" "is_rest_event ev" "get_onset parse ev = Some onset"
    "get_dur parse ev = Some dur" "dur > EPS"
  shows "(onset, onset + dur) \<in> set (explicit_rests parse events)"
proof -
  have "explicit_rest_of parse (JObj ev) = Some (onset, onset + dur)"
    using assms by (simp add: explicit_rest_of_def)
  then show ?thesis
    using assms(1) by (force simp: explicit_rests_map_filter List.map_filter_def)
qed








section \<open>The validator\<close>

lemma py_max_default_Max:
  "xs \<noteq> [] \<Longrightarrow> py_max_default xs d = Max (set xs)"
proof (cases xs)
  case Nil
  assume "xs \<noteq> []" with Nil show ?thesis by simp
next
  case (Cons y ys)
  have "foldl max y ys = fold max ys y"
    by (simp add: foldl_conv_fold max.commute)
  then show ?thesis using Cons by (simp add: Max.set_eq_fold del: set_simps)
qed

lemma prefix_diffs:
  "map (\<lambda>i. \<bar>got ! i - expected ! i\<bar>) [0..<min (length got) (length expected)] =
   map (\<lambda>(g, x). \<bar>g - x\<bar>) (zip got (expected :: real list))"
  by (rule nth_equalityI) simp_all


section \<open>The claims\<close>

text \<open>
  C1 (explicit precedence). If the event list holds a record that is classified as a
  rest, whose onset and duration are extractable and whose duration exceeds \<open>EPS\<close>, then
  \<open>extract_rest_intervals\<close> with \<open>require_explicit = False\<close> returns the coalesced explicit
  rests, which are not empty. Gap inference plays no part: the result is the one of
  \<open>require_explicit = True\<close>, where the function returns before the inference, and any
  event list with the same explicit rests gives the same result, whatever its active
  events are.
\<close>

theorem explicit_precedence:
  assumes "JObj ev \<in> set events" "is_rest_event ev" "get_onset parse ev = Some onset"
    "get_dur parse ev = Some dur" "dur > EPS"
  shows "extract_rest_intervals parse events False = coalesce_intervals (explicit_rests parse events)
    \<and> extract_rest_intervals parse events False \<noteq> []
    \<and> extract_rest_intervals parse events False = extract_rest_intervals parse events True
    \<and> (\<forall>events'. explicit_rests parse events' = explicit_rests parse events \<longrightarrow>
          extract_rest_intervals parse events' False = extract_rest_intervals parse events False)"
proof -
  have "explicit_rests parse events \<noteq> []"
    using explicit_rests_mem [OF assms] by auto
  then have ne: "coalesce_intervals (explicit_rests parse events) \<noteq> []"
    by (simp add: coalesce_intervals_Nil_iff)
  then show ?thesis by (simp add: extract_rest_intervals_def Let_def)
qed

theorem explicit_precedence_witness:
  "is_rest_event [(''rest'', JBool True), (''onset'', JInt 0), (''dur'', JInt 1)]
   \<and> get_onset (\<lambda>s. None) [(''rest'', JBool True), (''onset'', JInt 0), (''dur'', JInt 1)] = Some 0
   \<and> get_dur (\<lambda>s. None) [(''rest'', JBool True), (''onset'', JInt 0), (''dur'', JInt 1)] = Some 1
   \<and> EPS < 1
   \<and> extract_rest_intervals (\<lambda>s. None)
        [JObj [(''rest'', JBool True), (''onset'', JInt 0), (''dur'', JInt 1)],
         JObj [(''onset'', JInt 5), (''dur'', JInt 1)],
         JObj [(''onset'', JInt 10), (''dur'', JInt 1)]] False = [(0, 1)]
   \<and> extract_rest_intervals (\<lambda>s. None)
        [JObj [(''rest'', JBool True), (''onset'', JInt 0), (''dur'', JInt 1)],
         JObj [(''onset'', JInt 5), (''dur'', JInt 1)],
         JObj [(''onset'', JInt 10), (''dur'', JInt 1)]] True = [(0, 1)]
   \<and> extract_rest_intervals (\<lambda>s. None)
        [JObj [(''onset'', JInt 5), (''dur'', JInt 1)],
         JObj [(''onset'', JInt 10), (''dur'', JInt 1)]] False = [(6, 10)]"
proof -
  let ?ev = "[(''rest'', JBool True), (''onset'', JInt 0), (''dur'', JInt 1)]"
  let ?events = "[JObj ?ev, JObj [(''onset'', JInt 5), (''dur'', JInt 1)],
         JObj [(''onset'', JInt 10), (''dur'', JInt 1)]]"
  have h1: "JObj ?ev \<in> set ?events" by simp
  have h2: "is_rest_event ?ev" by (simp add: is_rest_event_def rest_flags_def)
  have h3: "get_onset (\<lambda>s. None) ?ev = Some 0" by (simp add: get_onset_def onset_keys_def)
  have h4: "get_dur (\<lambda>s. None) ?ev = Some 1" by (simp add: get_dur_def)
  have h5: "EPS < 1" by (simp add: EPS_def)
  have r: "coalesce_intervals (explicit_rests (\<lambda>s. None) ?events) = [(0, 1)]"
    by (simp add: is_rest_event_def rest_flags_def get_onset_def onset_keys_def get_dur_def
        EPS_def coalesce_intervals_def coalesce_intervals_eps_def coalesce_step_def)
  have g: "extract_rest_intervals (\<lambda>s. None)
        [JObj [(''onset'', JInt 5), (''dur'', JInt 1)],
         JObj [(''onset'', JInt 10), (''dur'', JInt 1)]] False = [(6, 10)]"
    by (simp add: extract_rest_intervals_def is_rest_event_def rest_flags_def get_onset_def
        onset_keys_def get_dur_def EPS_def coalesce_intervals_def coalesce_intervals_eps_def
        coalesce_step_def)
  note p = explicit_precedence [OF h1 h2 h3 h4 h5]
  from p have "extract_rest_intervals (\<lambda>s. None) ?events False =
      coalesce_intervals (explicit_rests (\<lambda>s. None) ?events)"
    by blast
  then have a: "extract_rest_intervals (\<lambda>s. None) ?events False = [(0, 1)]"
    by (simp only: r)
  from p have "extract_rest_intervals (\<lambda>s. None) ?events False =
      extract_rest_intervals (\<lambda>s. None) ?events True"
    by blast
  then have b: "extract_rest_intervals (\<lambda>s. None) ?events True = [(0, 1)]"
    by (simp only: a)
  show ?thesis using h2 h3 h4 h5 a b g by blast
qed









text \<open>
  C4 (locator recursion), as amended. On a mapping none of whose priority keys holds a
  list that is empty or starts with a mapping, \<open>find_event_list\<close> visits the values in
  iteration order and returns the result of the first value that is a mapping or a list
  and for which the recursive call finds a list; it returns "not found" when there is no
  such value. The list found may be empty: the counterexample returns the empty list of
  the first value although the second value holds an event.
\<close>

theorem find_event_list_recursion:
  assumes "\<forall>k \<in> set priority_keys. \<forall>v. map_of obj k = Some v \<longrightarrow> \<not> is_event_list v"
  shows "find_event_list (JObj obj) =
     (case List.find (\<lambda>v. (is_dict v \<or> is_list v) \<and> find_event_list v \<noteq> None) (map snd obj) of
        None \<Rightarrow> None
      | Some v \<Rightarrow> find_event_list v)"
proof -
  have "(\<lambda>v. (is_dict v \<or> is_list v) \<and> find_event_list v \<noteq> None) = (\<lambda>v. find_event_list v \<noteq> None)"
  proof (rule ext)
    fix v
    show "((is_dict v \<or> is_list v) \<and> find_event_list v \<noteq> None) = (find_event_list v \<noteq> None)"
      by (cases "is_dict v \<or> is_list v") (simp_all add: find_event_list_scalar)
  qed
  then show ?thesis
    using find_priority_None [OF assms] find_in_values_find [of obj] by simp
qed

theorem find_event_list_recursion_witness:
  "find_event_list
     (JObj [(''foo'', JObj [(''bar'', JArr [JObj [(''onset'', JInt 0), (''dur'', JInt 1)]])])]) =
   Some [JObj [(''onset'', JInt 0), (''dur'', JInt 1)]]"
proof -
  let ?obj = "[(''foo'', JObj [(''bar'', JArr [JObj [(''onset'', JInt 0), (''dur'', JInt 1)]])])]"
  have "\<forall>k \<in> set priority_keys. \<forall>v. map_of ?obj k = Some v \<longrightarrow> \<not> is_event_list v"
    by (simp add: priority_keys_def)
  from find_event_list_recursion [OF this] show ?thesis
    by (simp add: priority_keys_def)
qed

theorem find_event_list_empty_counterexample:
  "find_event_list (JObj [(''foo'', JArr []), (''bar'', JArr [JObj [(''onset'', JInt 0)]])]) = Some []
   \<and> find_priority [(''foo'', JArr []), (''bar'', JArr [JObj [(''onset'', JInt 0)]])] priority_keys = None
   \<and> find_event_list (JArr [JObj [(''onset'', JInt 0)]]) = Some [JObj [(''onset'', JInt 0)]]"
  by (simp add: priority_keys_def)


text \<open>
  C5 (shape of the located list), as amended. Every list that \<open>find_event_list\<close> returns
  is empty or has a mapping as its first element. The later elements are not inspected:
  the counterexample returns a list whose second element is a number.
\<close>

theorem find_event_list_first_mapping:
  "find_event_list v = Some xs \<Longrightarrow> xs = [] \<or> (\<exists>x rest. xs = x # rest \<and> is_dict x)"
  using find_event_list_shape(1) [of v xs] by (cases xs) auto

theorem find_event_list_first_mapping_witness:
  "find_event_list (JObj [(''events'', JArr [JObj [(''onset'', JInt 0)], JInt 5])]) =
     Some [JObj [(''onset'', JInt 0)], JInt 5]
   \<and> is_dict (JObj [(''onset'', JInt 0)])"
proof -
  have f: "find_event_list (JObj [(''events'', JArr [JObj [(''onset'', JInt 0)], JInt 5])]) =
     Some [JObj [(''onset'', JInt 0)], JInt 5]"
    by (simp add: priority_keys_def)
  from find_event_list_first_mapping [OF f] show ?thesis using f by simp
qed

theorem find_event_list_mixed_counterexample:
  "find_event_list (JArr [JObj [(''onset'', JInt 0)], JInt 5]) = Some [JObj [(''onset'', JInt 0)], JInt 5]
   \<and> \<not> list_all is_dict [JObj [(''onset'', JInt 0)], JInt 5]"
  by simp






text \<open>
  C7 (onset extraction). \<open>get_onset\<close> looks for the first key, in the order \<open>offset\<close>,
  \<open>off\<close>, \<open>onset\<close>, \<open>start\<close>, \<open>t\<close>, \<open>time\<close>, \<open>offset_q\<close>, \<open>onset_q\<close>, \<open>start_q\<close>, that
  is present in the record (with a value other than \<open>None\<close>) and coerces its value with
  \<open>to_float\<close>. The onset is absent exactly when no key is present or the coercion of the
  value of the first present key fails; a later key is not tried then.
\<close>

theorem get_onset_first_present:
  "onset_keys = [''offset'', ''off'', ''onset'', ''start'', ''t'', ''time'', ''offset_q'', ''onset_q'', ''start_q'']
   \<and> get_onset parse ev =
       (case List.find (present ev) onset_keys of
          None \<Rightarrow> None
        | Some k \<Rightarrow> to_float parse (the (map_of ev k)))
   \<and> (get_onset parse ev = None \<longleftrightarrow>
        (List.find (present ev) onset_keys = None
         \<or> (\<exists>k. List.find (present ev) onset_keys = Some k \<and> to_float parse (the (map_of ev k)) = None)))"
proof -
  have "get_onset parse ev =
       (case List.find (present ev) onset_keys of
          None \<Rightarrow> None
        | Some k \<Rightarrow> to_float parse (the (map_of ev k)))"
    by (simp add: get_onset_def first_present_find split: option.splits)
  then show ?thesis by (auto simp: onset_keys_def split: option.splits)
qed

theorem get_onset_first_present_witness:
  "get_onset (\<lambda>s. None) [(''offset'', JNull), (''onset'', JStr ''x''), (''start'', JInt 3)] = None
   \<and> List.find (present [(''offset'', JNull), (''onset'', JStr ''x''), (''start'', JInt 3)]) onset_keys
       = Some ''onset''
   \<and> get_onset (\<lambda>s. None) [(''offset'', JNull), (''start'', JInt 3)] = Some 3"
proof -
  have f: "List.find (present [(''offset'', JNull), (''onset'', JStr ''x''), (''start'', JInt 3)]) onset_keys
       = Some ''onset''"
    by (simp add: present_def onset_keys_def)
  have "get_onset (\<lambda>s. None) [(''offset'', JNull), (''onset'', JStr ''x''), (''start'', JInt 3)] = None"
    using get_onset_first_present [of "\<lambda>s. None"
        "[(''offset'', JNull), (''onset'', JStr ''x''), (''start'', JInt 3)]"]
    unfolding f by simp
  moreover have "get_onset (\<lambda>s. None) [(''offset'', JNull), (''start'', JInt 3)] = Some 3"
    by (simp add: get_onset_def onset_keys_def)
  ultimately show ?thesis using f by simp
qed


text \<open>
  C8 (validator). \<open>validate_expected\<close> prints the warning line, with the two lengths,
  exactly when the lengths differ, and then always the check line. The value of the check
  line is the greatest absolute difference over the common prefix of the two sequences
  (the pairs of \<open>zip\<close>), and 0 when one of them is empty. The function is total: no input
  makes it fail.
\<close>

theorem validate_expected_diagnostic:
  "validate_expected label got expected =
     (if length got \<noteq> length expected then [WARN label (length got) (length expected)] else [])
     @ [CHECK label
          (if got = [] \<or> expected = [] then 0
           else Max ((\<lambda>(g, x). \<bar>g - x\<bar>) ` set (zip got expected)))]"
proof (cases "got = [] \<or> expected = []")
  case True
  then show ?thesis by (auto simp: validate_expected_def)
next
  case False
  then have "zip got expected \<noteq> []" by (cases got; cases expected) simp_all
  then have "py_max_default (map (\<lambda>(g, x). \<bar>g - x\<bar>) (zip got expected)) 0 =
      Max ((\<lambda>(g, x). \<bar>g - x\<bar>) ` set (zip got expected))"
    by (subst py_max_default_Max) simp_all
  then show ?thesis using False by (simp add: validate_expected_def prefix_diffs Let_def)
qed

theorem validate_expected_diagnostic_witness:
  "validate_expected ''Nidi panel 1'' [3, 5 / 2, 1] [3, 2, 1, 4] =
     [WARN ''Nidi panel 1'' 3 4, CHECK ''Nidi panel 1'' (1 / 2)]
   \<and> validate_expected ''Nidi panel 1'' [] [3, 2] =
     [WARN ''Nidi panel 1'' 0 2, CHECK ''Nidi panel 1'' 0]
   \<and> validate_expected ''Nidi panel 1'' [3, 2] [3, 2] = [CHECK ''Nidi panel 1'' 0]"
proof -
  have "validate_expected ''Nidi panel 1'' [3, 5 / 2, 1] [3, 2, 1, 4] =
     [WARN ''Nidi panel 1'' 3 4, CHECK ''Nidi panel 1'' (1 / 2)]"
    using validate_expected_diagnostic [of "''Nidi panel 1''" "[3, 5 / 2, 1]" "[3, 2, 1, 4]"]
    by simp
  moreover have "validate_expected ''Nidi panel 1'' [] [3, 2] =
     [WARN ''Nidi panel 1'' 0 2, CHECK ''Nidi panel 1'' 0]"
    using validate_expected_diagnostic [of "''Nidi panel 1''" "[]" "[3, 2]"] by simp
  moreover have "validate_expected ''Nidi panel 1'' [3, 2] [3, 2] = [CHECK ''Nidi panel 1'' 0]"
    using validate_expected_diagnostic [of "''Nidi panel 1''" "[3, 2]" "[3, 2]"] by simp
  ultimately show ?thesis by simp
qed


text \<open>
  C9 (interval invariant), for finite values. Every interval \<open>(start, end)\<close> that
  \<open>extract_rest_intervals\<close> returns has \<open>start \<le> end\<close>, for every event list of this
  model and both values of the flag. The onsets and durations of the model are finite.
  The program also accepts the values that are not: \<open>float\<close> returns infinity for the
  number \<open>1e999\<close> and NaN for the string \<open>nan\<close>, and for a rest of onset \<open>-1e999\<close> and
  duration \<open>1e999\<close> it returns the interval from minus infinity to NaN, which is not
  ordered. The invariant of the program is therefore this one only on finite values.
\<close>

theorem extract_rest_intervals_ordered:
  "\<forall>(s, e) \<in> set (extract_rest_intervals parse events require_explicit). s \<le> e"
proof -
  have 1: "fst q \<le> snd q" if "q \<in> set (coalesce_intervals (explicit_rests parse events))" for q
    using coalesce_intervals_wf [OF _ that] explicit_rests_wf [of _ parse events]
    by (simp add: less_imp_le)
  have 2: "fst q \<le> snd q" if "q \<in> set (coalesce_intervals (inferred_gaps pairs))" for q pairs
    using coalesce_intervals_wf [OF _ that] inferred_gaps_wf [of _ pairs]
    by (simp add: less_imp_le)
  have "fst q \<le> snd q" if "q \<in> set (extract_rest_intervals parse events require_explicit)" for q
    using that 1 2 by (auto simp: extract_rest_intervals_def Let_def split: if_splits)
  then show ?thesis by auto
qed

theorem extract_rest_intervals_ordered_witness:
  "extract_rest_intervals (\<lambda>s. None)
     [JObj [(''type'', JStr ''Rest''), (''start'', JFloat (1 / 2)), (''dur_8'', JInt 3)]] False =
     [(1 / 2, 2)]
   \<and> (1 / 2 :: real) \<le> 2"
proof -
  let ?events = "[JObj [(''type'', JStr ''Rest''), (''start'', JFloat (1 / 2)), (''dur_8'', JInt 3)]]"
  have "is_rest_event [(''type'', JStr ''Rest''), (''start'', JFloat (1 / 2)), (''dur_8'', JInt 3)]"
    by code_simp
  then have r: "extract_rest_intervals (\<lambda>s. None) ?events False = [(1 / 2, 2)]"
    by (simp add: extract_rest_intervals_def get_onset_def
        onset_keys_def get_dur_def EPS_def coalesce_intervals_def coalesce_intervals_eps_def
        coalesce_step_def)
  have "(1 / 2 :: real) \<le> 2"
    using extract_rest_intervals_ordered [of "\<lambda>s. None" ?events False] unfolding r by simp
  with r show ?thesis by simp
qed


text \<open>
  C10 (elements that are not mappings). \<open>extract_rest_intervals\<close> gives the same result
  on an event list and on the list of its mappings alone: both loops skip every other
  element. The function is total: no element makes it fail.
\<close>

theorem extract_rest_intervals_skips_non_mappings:
  "extract_rest_intervals parse events require_explicit =
   extract_rest_intervals parse (filter is_dict events) require_explicit"
  unfolding extract_rest_intervals_def explicit_rests_filter active_spans_filter ..

theorem extract_rest_intervals_skips_non_mappings_witness:
  "extract_rest_intervals (\<lambda>s. None)
     [JInt 7, JObj [(''onset'', JInt 0), (''dur'', JInt 1)], JStr ''x'', JNull,
      JObj [(''onset'', JInt 2), (''dur'', JInt 1)], JArr []] False = [(1, 2)]
   \<and> extract_rest_intervals (\<lambda>s. None)
     [JObj [(''onset'', JInt 0), (''dur'', JInt 1)],
      JObj [(''onset'', JInt 2), (''dur'', JInt 1)]] False = [(1, 2)]"
proof -
  have r: "extract_rest_intervals (\<lambda>s. None)
     [JObj [(''onset'', JInt 0), (''dur'', JInt 1)],
      JObj [(''onset'', JInt 2), (''dur'', JInt 1)]] False = [(1, 2)]"
    by (simp add: extract_rest_intervals_def is_rest_event_def rest_flags_def get_onset_def
        onset_keys_def get_dur_def EPS_def coalesce_intervals_def coalesce_intervals_eps_def
        coalesce_step_def)
  have "extract_rest_intervals (\<lambda>s. None)
     [JInt 7, JObj [(''onset'', JInt 0), (''dur'', JInt 1)], JStr ''x'', JNull,
      JObj [(''onset'', JInt 2), (''dur'', JInt 1)], JArr []] False = [(1, 2)]"
    using extract_rest_intervals_skips_non_mappings [of "\<lambda>s. None"
      "[JInt 7, JObj [(''onset'', JInt 0), (''dur'', JInt 1)], JStr ''x'', JNull,
      JObj [(''onset'', JInt 2), (''dur'', JInt 1)], JArr []]" False] r
    by simp
  with r show ?thesis by simp
qed


end
